theory Spec2Isabelle
  imports Main "HOL-Library.Sublist"
begin

section \<open>Python strings\<close>

text \<open>
  A Python \<^verbatim>\<open>str\<close> is a sequence of Unicode code points. A code point is a natural
  number here, so that the whitespace and line-break characters beyond Latin-1 that
  \<^verbatim>\<open>str.split\<close>, \<^verbatim>\<open>str.strip\<close> and \<^verbatim>\<open>str.splitlines\<close> know are part of the model.
  \<open>py ''abc''\<close> is the Python string of an ASCII literal.
\<close>

type_synonym pychar = nat
type_synonym pystr = "pychar list"

abbreviation ord :: "char \<Rightarrow> pychar" where
  "ord c \<equiv> of_char c"

abbreviation py :: "string \<Rightarrow> pystr" where
  "py s \<equiv> map of_char s"

abbreviation LF :: pychar where
  "LF \<equiv> 10"

abbreviation CR :: pychar where
  "CR \<equiv> 13"

abbreviation backslash :: pychar where
  "backslash \<equiv> 92"

text \<open>\<^verbatim>\<open>str.isspace\<close> of one character, the test behind \<^verbatim>\<open>split()\<close> and \<^verbatim>\<open>strip()\<close>.\<close>

definition isspace :: "pychar \<Rightarrow> bool" where
  "isspace c \<longleftrightarrow>
     c \<in> set [0x09, 0x0A, 0x0B, 0x0C, 0x0D, 0x1C, 0x1D, 0x1E, 0x1F, 0x20, 0x85, 0xA0,
              0x1680, 0x2028, 0x2029, 0x202F, 0x205F, 0x3000]
     \<or> (0x2000 \<le> c \<and> c \<le> 0x200A)"

text \<open>The line boundaries of \<^verbatim>\<open>str.splitlines\<close>.\<close>

definition islinebreak :: "pychar \<Rightarrow> bool" where
  "islinebreak c \<longleftrightarrow>
     c \<in> set [0x0A, 0x0B, 0x0C, 0x0D, 0x1C, 0x1D, 0x1E, 0x85, 0x2028, 0x2029]"

text \<open>\<^verbatim>\<open>[a-zA-Z]\<close> of a pattern compiled without flags: the ASCII letters.\<close>

definition isletter :: "pychar \<Rightarrow> bool" where
  "isletter c \<longleftrightarrow> (0x41 \<le> c \<and> c \<le> 0x5A) \<or> (0x61 \<le> c \<and> c \<le> 0x7A)"

text \<open>
  \<^verbatim>\<open>text.split()\<close>: skip whitespace, take the run of characters up to the next
  whitespace as a token, repeat. No token is empty.
\<close>

function str_split :: "pystr \<Rightarrow> pystr list" where
  "str_split [] = []"
| "str_split (c # cs) =
     (if isspace c then str_split cs
      else (c # takeWhile (\<lambda>x. \<not> isspace x) cs) # str_split (dropWhile (\<lambda>x. \<not> isspace x) cs))"
  by pat_completeness auto
termination
  by (relation "measure length") (auto simp: length_dropWhile_le less_Suc_eq_le)

text \<open>\<^verbatim>\<open>line.strip()\<close>: whitespace removed at both ends.\<close>

definition strip :: "pystr \<Rightarrow> pystr" where
  "strip s = rev (dropWhile isspace (rev (dropWhile isspace s)))"

text \<open>
  \<^verbatim>\<open>content.splitlines()\<close>: the lines without their line breaks. \<^verbatim>\<open>\r\n\<close> is one
  break; a break at the very end opens no further line; the empty string has no line.
\<close>

function splitlines :: "pystr \<Rightarrow> pystr list" where
  "splitlines [] = []"
| "splitlines (c # cs) =
     (let line = takeWhile (\<lambda>x. \<not> islinebreak x) (c # cs) in
      case dropWhile (\<lambda>x. \<not> islinebreak x) (c # cs) of
        [] \<Rightarrow> [line]
      | b # r \<Rightarrow>
          (case r of
             [] \<Rightarrow> [line]
           | d # r' \<Rightarrow> if b = CR \<and> d = LF then line # splitlines r' else line # splitlines (d # r')))"
  by pat_completeness auto
termination
proof (relation "measure length")
  fix c :: pychar and cs line b r d r'
  assume a: "dropWhile (\<lambda>x. \<not> islinebreak x) (c # cs) = b # r" and b: "r = d # r'"
  have "length (b # r) \<le> length (c # cs)"
    by (metis a length_dropWhile_le)
  with b show "(r', c # cs) \<in> measure length" and "(d # r', c # cs) \<in> measure length"
    by simp_all
qed simp

declare splitlines.simps [simp del]

text \<open>\<^verbatim>\<open>sep.join(lines)\<close> for a one-character separator.\<close>

fun join :: "pychar \<Rightarrow> pystr list \<Rightarrow> pystr" where
  "join sep [] = []"
| "join sep [l] = l"
| "join sep (l # l' # ls) = l @ sep # join sep (l' # ls)"

section \<open>The regular expressions of the program\<close>

text \<open>
  No pattern of the program has an anchor, a look-around or a back-reference, so whether
  it matches at a position depends on the text from that position on only. A pattern
  is a function on that text: \<open>m s = Some n\<close> when the pattern matches the first \<open>n\<close>
  characters of \<open>s\<close>, with the length the backtracking engine finds first. Every pattern
  of the program starts with a literal character, so no match is empty.
\<close>

type_synonym pattern = "pystr \<Rightarrow> nat option"

text \<open>
  \<^verbatim>\<open>re.sub(pattern, '', content)\<close>: at each position from the left, a match is cut out
  and the scan goes on behind it; where the pattern does not match, the character stays.
\<close>

function re_sub :: "pattern \<Rightarrow> pystr \<Rightarrow> pystr" where
  "re_sub m [] = []"
| "re_sub m (c # cs) =
     (case m (c # cs) of
        Some n \<Rightarrow> re_sub m (drop (n - 1) cs)
      | None \<Rightarrow> c # re_sub m cs)"
  by pat_completeness auto
termination
  by (relation "measure (\<lambda>(m, s). length s)") auto

text \<open>
  The offset of the first occurrence of \<open>e\<close>: where a lazy \<^verbatim>\<open>[\s\S]*?\<close> followed by the
  literal \<open>e\<close> stops.
\<close>

fun find_str :: "pystr \<Rightarrow> pystr \<Rightarrow> nat option" where
  "find_str e [] = (if e = [] then Some 0 else None)"
| "find_str e (c # cs) =
     (if prefix e (c # cs) then Some 0 else map_option Suc (find_str e cs))"

text \<open>
  The offset of the first \<open>d\<close> before any line feed: where a lazy \<^verbatim>\<open>.*?\<close> followed by the
  literal \<open>d\<close> stops (\<^verbatim>\<open>.\<close> matches every character but \<^verbatim>\<open>\n\<close>).
\<close>

fun find_on_line :: "pychar \<Rightarrow> pystr \<Rightarrow> nat option" where
  "find_on_line d [] = None"
| "find_on_line d (c # cs) =
     (if c = d then Some 0
      else if c = LF then None
      else map_option Suc (find_on_line d cs))"

text \<open>\<^verbatim>\<open>B[\s\S]*?E\<close> for literals \<open>B\<close> and \<open>E\<close>.\<close>

definition match_span :: "pystr \<Rightarrow> pystr \<Rightarrow> pattern" where
  "match_span b e s =
     (if prefix b s
      then map_option (\<lambda>k. length b + k + length e) (find_str e (drop (length b) s))
      else None)"

text \<open>\<^verbatim>\<open>%.*\<close>: a percent sign and the rest of its line.\<close>

definition match_comment :: pattern where
  "match_comment s =
     (case s of
        [] \<Rightarrow> None
      | c # cs \<Rightarrow>
          if c = ord CHR ''%'' then Some (1 + length (takeWhile (\<lambda>x. x \<noteq> LF) cs)) else None)"

text \<open>
  \<^verbatim>\<open>\\begin{env}[\s\S]*?\\end{env}\<close>; the starred pattern of the source is this one at
  \<open>env @ py ''*''\<close>.
\<close>

definition match_environment :: "pystr \<Rightarrow> pattern" where
  "match_environment env =
     match_span (backslash # py ''begin{'' @ env @ py ''}'') (backslash # py ''end{'' @ env @ py ''}'')"

text \<open>\<^verbatim>\<open>\$\$[\s\S]*?\$\$\<close> and \<^verbatim>\<open>\\\[[\s\S]*?\\\]\<close>.\<close>

definition match_display_dollars :: pattern where
  "match_display_dollars = match_span (py ''$$'') (py ''$$'')"

definition match_display_brackets :: pattern where
  "match_display_brackets = match_span (backslash # py ''['') (backslash # py '']'')"

text \<open>\<^verbatim>\<open>\$.*?\$\<close>.\<close>

definition match_inline_math :: pattern where
  "match_inline_math s =
     (case s of
        [] \<Rightarrow> None
      | c # cs \<Rightarrow>
          if c = ord CHR ''$'' then map_option (\<lambda>k. k + 2) (find_on_line (ord CHR ''$'') cs)
          else None)"

text \<open>
  The first optional group of the command pattern, \<^verbatim>\<open>(?:\\[[^\]]*?\])?\<close>. In the source's
  raw string \<^verbatim>\<open>\\\<close> is a literal backslash and the \<^verbatim>\<open>[\<close> behind it opens a character
  set, which holds \<^verbatim>\<open>[\<close>, \<^verbatim>\<open>^\<close> and \<^verbatim>\<open>]\<close>. So the group is a backslash, lazily
  characters of that set, and a closing bracket: \<open>bracket_run\<close> is the length of the lazy
  run with its closing bracket, \<open>option_group\<close> the length of the group, 0 when it is
  left out.
\<close>

fun bracket_run :: "pystr \<Rightarrow> nat option" where
  "bracket_run [] = None"
| "bracket_run (c # cs) =
     (if c = ord CHR '']'' then Some 1
      else if c = ord CHR ''['' \<or> c = ord CHR ''^'' then map_option Suc (bracket_run cs)
      else None)"

definition option_group :: "pystr \<Rightarrow> nat" where
  "option_group s =
     (case s of
        [] \<Rightarrow> 0
      | c # cs \<Rightarrow>
          if c = backslash then (case bracket_run cs of Some k \<Rightarrow> 1 + k | None \<Rightarrow> 0)
          else 0)"

text \<open>The second optional group, \<^verbatim>\<open>(?:\{.*?\})?\<close>: its length, 0 when it is left out.\<close>

definition argument_group :: "pystr \<Rightarrow> nat" where
  "argument_group s =
     (case s of
        [] \<Rightarrow> 0
      | c # cs \<Rightarrow>
          if c = ord CHR ''{''
          then (case find_on_line (ord CHR ''}'') cs of Some k \<Rightarrow> k + 2 | None \<Rightarrow> 0)
          else 0)"

text \<open>
  \<^verbatim>\<open>\\[a-zA-Z]+(?:\\[[^\]]*?\])?(?:\{.*?\})?\<close>: the name is greedy, and both groups are
  optional and greedy, so the engine takes each group where it matches and never has
  to give back a letter.
\<close>

definition match_command_args :: pattern where
  "match_command_args s =
     (case s of
        [] \<Rightarrow> None
      | c # cs \<Rightarrow>
          if c = backslash \<and> takeWhile isletter cs \<noteq> [] then
            (let n = length (takeWhile isletter cs);
                 g1 = option_group (drop n cs);
                 g2 = argument_group (drop (n + g1) cs)
             in Some (1 + n + g1 + g2))
          else None)"

text \<open>\<^verbatim>\<open>\\[a-zA-Z]+\<close>.\<close>

definition match_command :: pattern where
  "match_command s =
     (case s of
        [] \<Rightarrow> None
      | c # cs \<Rightarrow>
          if c = backslash \<and> takeWhile isletter cs \<noteq> []
          then Some (1 + length (takeWhile isletter cs))
          else None)"

text \<open>\<^verbatim>\<open>[\{\}]\<close>.\<close>

definition match_brace :: pattern where
  "match_brace s =
     (case s of
        [] \<Rightarrow> None
      | c # cs \<Rightarrow> if c = ord CHR ''{'' \<or> c = ord CHR ''}'' then Some 1 else None)"

section \<open>The cleaner\<close>

definition environments_to_remove :: "pystr list" where
  "environments_to_remove =
     [py ''equation'', py ''figure'', py ''table'', py ''tabular'', py ''thebibliography'',
      py ''verbatim'', py ''tikzpicture'']"

text \<open>One round of the loop over \<open>environments_to_remove\<close>.\<close>

definition remove_environment :: "pystr \<Rightarrow> pystr \<Rightarrow> pystr" where
  "remove_environment content env =
     re_sub (match_environment (env @ py ''*'')) (re_sub (match_environment env) content)"

text \<open>The last statement of \<^verbatim>\<open>clean_latex\<close>: every line stripped, the lines joined again.\<close>

definition strip_lines :: "pystr \<Rightarrow> pystr" where
  "strip_lines content = join LF (map strip (splitlines content))"

definition clean_latex :: "pystr \<Rightarrow> pystr" where
  "clean_latex content =
     (let content = re_sub match_comment content;
          content = foldl remove_environment content environments_to_remove;
          content = re_sub match_display_dollars content;
          content = re_sub match_display_brackets content;
          content = re_sub match_inline_math content;
          content = re_sub match_command_args content;
          content = re_sub match_command content;
          content = re_sub match_brace content
      in strip_lines content)"

definition count_words :: "pystr \<Rightarrow> nat" where
  "count_words text = length (str_split text)"

section \<open>Section headers\<close>

text \<open>
  \<^verbatim>\<open>\\section\*?{([^}]+)}\<close> and \<^verbatim>\<open>\\subsection\*?{([^}]+)}\<close>, for \<open>name\<close> the command's
  name: the length of the match and group 1, the title. The title is the text up to the
  first closing brace (line feeds included), it is not empty, and the brace must be
  there; the optional star, once taken, is never given back with success, since the
  character behind the name is then a star and not the opening brace.
\<close>

definition match_header :: "pystr \<Rightarrow> pystr \<Rightarrow> (nat \<times> pystr) option" where
  "match_header name s =
     (if prefix (backslash # name) s then
        (let r = drop (1 + length name) s;
             star = (if prefix (py ''*'') r then 1 else 0)
         in case drop star r of
              [] \<Rightarrow> None
            | c # cs \<Rightarrow>
                (let title = takeWhile (\<lambda>x. x \<noteq> ord CHR ''}'') cs in
                 if c = ord CHR ''{'' \<and> title \<noteq> [] \<and> length title < length cs
                 then Some (1 + length name + star + 1 + length title + 1, title)
                 else None))
      else None)"

text \<open>
  \<^verbatim>\<open>re.search(pattern, s)\<close> for a header pattern: group 1 of the leftmost match. (No
  header pattern matches the empty string.)
\<close>

fun re_search :: "(pystr \<Rightarrow> (nat \<times> pystr) option) \<Rightarrow> pystr \<Rightarrow> pystr option" where
  "re_search m [] = None"
| "re_search m (c # cs) =
     (case m (c # cs) of
        Some (n, title) \<Rightarrow> Some title
      | None \<Rightarrow> re_search m cs)"

text \<open>
  \<^verbatim>\<open>re.split('(' + pattern + ')', s)\<close> for a header pattern. The parentheses added around
  the pattern are a capturing group of their own, the title's group is the second, and
  \<^verbatim>\<open>re.split\<close> returns the text of every group between the pieces: after the piece before
  a header come the whole header, then its title, then the piece behind it. \<open>acc\<close> is
  the current piece, read so far, in reverse.
\<close>

function re_split_acc :: "(pystr \<Rightarrow> (nat \<times> pystr) option) \<Rightarrow> pystr \<Rightarrow> pystr \<Rightarrow> pystr list" where
  "re_split_acc m acc [] = [rev acc]"
| "re_split_acc m acc (c # cs) =
     (case m (c # cs) of
        Some (n, title) \<Rightarrow> rev acc # take n (c # cs) # title # re_split_acc m [] (drop (n - 1) cs)
      | None \<Rightarrow> re_split_acc m (c # acc) cs)"
  by pat_completeness auto
termination
  by (relation "measure (\<lambda>(m, acc, s). length s)") auto

definition re_split :: "(pystr \<Rightarrow> (nat \<times> pystr) option) \<Rightarrow> pystr \<Rightarrow> pystr list" where
  "re_split m s = re_split_acc m [] s"

definition section_pattern :: "pystr \<Rightarrow> (nat \<times> pystr) option" where
  "section_pattern = match_header (py ''section'')"

definition subsection_pattern :: "pystr \<Rightarrow> (nat \<times> pystr) option" where
  "subsection_pattern = match_header (py ''subsection'')"

section \<open>The sectional counter\<close>

text \<open>
  The dictionaries of the source: a subsection's and a section's entry, and \<open>results\<close>.
  \<open>res_preamble\<close> is \<open>None\<close> for the empty dictionary the source starts with.
\<close>

record subsection_data =
  sub_title :: pystr
  sub_word_count :: nat

record section_data =
  sec_title :: pystr
  sec_word_count :: nat
  sec_subsections :: "subsection_data list"

record results =
  res_total_words :: nat
  res_preamble :: "nat option"
  res_sections :: "section_data list"

text \<open>
  What \<^verbatim>\<open>parse_and_count\<close> hands to the printing code: the count of the plain-text mode,
  or \<open>results\<close>.
\<close>

datatype outcome = PlainText nat | Tree results

datatype pyerror = IndexError

text \<open>\<^verbatim>\<open>xs[i]\<close> for an index that is not negative.\<close>

definition getitem :: "'a list \<Rightarrow> nat \<Rightarrow> pyerror + 'a" where
  "getitem xs i = (if i < length xs then Inr (xs ! i) else Inl IndexError)"

text \<open>
  \<^verbatim>\<open>for j in range(1, len(subsections), 2)\<close>, from \<open>j\<close> on, on the section's entry.
\<close>

function subsection_loop :: "pystr list \<Rightarrow> nat \<Rightarrow> section_data \<Rightarrow> pyerror + section_data" where
  "subsection_loop subsections j section_data =
     (if j < length subsections then
        (case re_search subsection_pattern (subsections ! j) of
           None \<Rightarrow> subsection_loop subsections (j + 2) section_data
         | Some subsection_title \<Rightarrow>
             (case getitem subsections (j + 1) of
                Inl e \<Rightarrow> Inl e
              | Inr subsection_content \<Rightarrow>
                  (let subsection_cleaned = clean_latex subsection_content;
                       subsection_word_count = count_words subsection_cleaned
                   in if subsection_word_count > 0 then
                        subsection_loop subsections (j + 2)
                          (section_data
                             \<lparr>sec_subsections := sec_subsections section_data @
                                [\<lparr>sub_title = subsection_title,
                                  sub_word_count = subsection_word_count\<rparr>],
                              sec_word_count := sec_word_count section_data + subsection_word_count\<rparr>)
                      else subsection_loop subsections (j + 2) section_data)))
      else Inr section_data)"
  by pat_completeness auto
termination
  by (relation "measure (\<lambda>(subsections, j, d). length subsections - j)") auto

declare subsection_loop.simps [simp del]

text \<open>
  The body of the loop over the sections behind a matched title: the section's entry
  from its title and \<open>section_content\<close>.
\<close>

definition process_section :: "pystr \<Rightarrow> pystr \<Rightarrow> pyerror + section_data" where
  "process_section section_title section_content =
     (let section_data = \<lparr>sec_title = section_title, sec_word_count = 0, sec_subsections = []\<rparr>;
          subsections = re_split subsection_pattern section_content
      in case getitem subsections 0 of
           Inl e \<Rightarrow> Inl e
         | Inr section_intro_content \<Rightarrow>
             (let section_intro_cleaned = clean_latex section_intro_content;
                  section_intro_word_count = count_words section_intro_cleaned
              in subsection_loop subsections 1
                   (section_data
                      \<lparr>sec_word_count := sec_word_count section_data + section_intro_word_count\<rparr>)))"

text \<open>\<^verbatim>\<open>for i in range(1, len(sections), 2)\<close>, from \<open>i\<close> on, on \<open>results\<close>.\<close>

function section_loop :: "pystr list \<Rightarrow> nat \<Rightarrow> results \<Rightarrow> pyerror + results" where
  "section_loop sections i results =
     (if i < length sections then
        (case re_search section_pattern (sections ! i) of
           None \<Rightarrow> section_loop sections (i + 2) results
         | Some section_title \<Rightarrow>
             (case getitem sections (i + 1) of
                Inl e \<Rightarrow> Inl e
              | Inr section_content \<Rightarrow>
                  (case process_section section_title section_content of
                     Inl e \<Rightarrow> Inl e
                   | Inr section_data \<Rightarrow>
                       section_loop sections (i + 2)
                         (results
                            \<lparr>res_sections := res_sections results @ [section_data],
                             res_total_words := res_total_words results + sec_word_count section_data\<rparr>))))
      else Inr results)"
  by pat_completeness auto
termination
  by (relation "measure (\<lambda>(sections, i, r). length sections - i)") auto

declare section_loop.simps [simp del]

definition is_latex :: "pystr \<Rightarrow> bool" where
  "is_latex content \<longleftrightarrow>
     sublist (backslash # py ''section'') content
     \<or> sublist (backslash # py ''subsection'') content
     \<or> sublist (backslash # py ''documentclass'') content"

definition parse_and_count :: "pystr \<Rightarrow> pyerror + outcome" where
  "parse_and_count content =
     (if \<not> is_latex content then Inr (PlainText (count_words content))
      else
        (let sections = re_split section_pattern content;
             results = \<lparr>res_total_words = 0, res_preamble = None, res_sections = []\<rparr>
         in case getitem sections 0 of
              Inl e \<Rightarrow> Inl e
            | Inr preamble_content \<Rightarrow>
                (let preamble_cleaned = clean_latex preamble_content;
                     preamble_word_count = count_words preamble_cleaned;
                     results =
                       (if preamble_word_count > 0
                        then results\<lparr>res_preamble := Some preamble_word_count,
                                     res_total_words := res_total_words results + preamble_word_count\<rparr>
                        else results)
                 in map_sum id Tree (section_loop sections 1 results))))"

section \<open>Notions of the specification\<close>

text \<open>
  The whitespace-delimited tokens in the specification's words: the text is cut at
  every whitespace character, and the pieces that are not empty are the tokens.
\<close>

fun fields :: "pystr \<Rightarrow> pystr list" where
  "fields [] = [[]]"
| "fields (c # cs) =
     (if isspace c then [] # fields cs
      else (case fields cs of w # ws \<Rightarrow> (c # w) # ws | [] \<Rightarrow> [[c]]))"

definition token_count :: "pystr \<Rightarrow> nat" where
  "token_count s = length (filter (\<lambda>w. w \<noteq> []) (fields s))"

text \<open>
  The number of tokens that start in \<open>s\<close>, when \<open>inword\<close> says whether the character
  before \<open>s\<close> belongs to a token.
\<close>

fun count_from :: "bool \<Rightarrow> pystr \<Rightarrow> nat" where
  "count_from inword [] = 0"
| "count_from inword (c # cs) =
     (if isspace c then count_from False cs
      else (if inword then 0 else 1) + count_from True cs)"

text \<open>
  The preamble's word count, 0 when \<open>results\<close> has no preamble node; the sum of the
  word counts of a section's subsections; the sum of the word counts of the sections.
\<close>

definition preamble_words :: "results \<Rightarrow> nat" where
  "preamble_words r = (case res_preamble r of None \<Rightarrow> 0 | Some n \<Rightarrow> n)"

definition subsections_words :: "section_data \<Rightarrow> nat" where
  "subsections_words d = sum_list (map sub_word_count (sec_subsections d))"

definition sections_words :: "results \<Rightarrow> nat" where
  "sections_words r = sum_list (map sec_word_count (res_sections r))"

text \<open>
  The lines of the comment pattern: \<^verbatim>\<open>.\<close> stops at \<^verbatim>\<open>\n\<close> only, so a line is the text
  between two line feeds (as in \<^verbatim>\<open>s.split('\n')\<close>). \<open>uncomment_line\<close> is a line up to its
  first percent sign.
\<close>

fun lf_lines :: "pystr \<Rightarrow> pystr list" where
  "lf_lines [] = [[]]"
| "lf_lines (c # cs) =
     (if c = LF then [] # lf_lines cs
      else (case lf_lines cs of l # ls \<Rightarrow> (c # l) # ls | [] \<Rightarrow> [[c]]))"

definition uncomment_line :: "pystr \<Rightarrow> pystr" where
  "uncomment_line l = takeWhile (\<lambda>c. c \<noteq> ord CHR ''%'') l"

text \<open>
  No line (between line feeds) of the text holds two dollar signs; \<open>seen\<close> says whether
  the line the text starts in has one before the text.
\<close>

fun single_dollar :: "bool \<Rightarrow> pystr \<Rightarrow> bool" where
  "single_dollar seen [] = True"
| "single_dollar seen (c # cs) =
     (if c = LF then single_dollar False cs
      else if c = ord CHR ''$'' then \<not> seen \<and> single_dollar True cs
      else single_dollar seen cs)"

section \<open>Evaluation\<close>

lemmas eval_defs = isspace_def islinebreak_def isletter_def strip_def match_span_def
  match_comment_def match_environment_def match_display_dollars_def match_display_brackets_def
  match_inline_math_def option_group_def argument_group_def match_command_args_def
  match_command_def match_brace_def environments_to_remove_def remove_environment_def
  strip_lines_def clean_latex_def count_words_def match_header_def re_split_def
  section_pattern_def subsection_pattern_def getitem_def process_section_def is_latex_def
  parse_and_count_def Let_def sublist_code(3) splitlines.simps subsection_loop.simps
  section_loop.simps

section \<open>Counting words\<close>

lemma count_from_dropWhile:
  "count_from True cs = count_from False (dropWhile (\<lambda>x. \<not> isspace x) cs)"
  by (induction cs) auto

lemma count_words_count_from: "count_words s = count_from False s"
  unfolding count_words_def
  by (induction s rule: str_split.induct) (auto simp: count_from_dropWhile)

lemma fields_not_Nil: "fields s \<noteq> []"
  by (induction s) (auto split: list.splits)

lemma count_from_fields:
  "count_from False s = length (filter (\<lambda>w. w \<noteq> []) (fields s)) \<and>
   count_from True s = length (filter (\<lambda>w. w \<noteq> []) (tl (fields s)))"
  by (induction s) (auto split: list.splits simp: fields_not_Nil)

lemma count_words_token_count: "count_words s = token_count s"
  by (simp add: count_words_count_from count_from_fields token_count_def)

section \<open>Plain text\<close>

text \<open>
  Claim C4. An input that contains none of \<^verbatim>\<open>\section\<close>, \<^verbatim>\<open>\subsection\<close> and
  \<^verbatim>\<open>\documentclass\<close> is handled as plain text: what is reported is \<open>count_words\<close> of the
  raw input, nothing is cleaned, and that count is the number of whitespace-delimited
  tokens of the input that are not empty.
\<close>

theorem plain_text_word_count:
  assumes "\<not> sublist (backslash # py ''section'') content"
    and "\<not> sublist (backslash # py ''subsection'') content"
    and "\<not> sublist (backslash # py ''documentclass'') content"
  shows "parse_and_count content = Inr (PlainText (count_words content))
    \<and> count_words content = token_count content"
  using assms by (simp add: parse_and_count_def is_latex_def count_words_token_count)

theorem plain_text_word_count_witness:
  "parse_and_count (py ''Just plain text with five words'') = Inr (PlainText 6)
   \<and> token_count (py ''Just plain text with five words'') = 6"
proof -
  let ?s = "py ''Just plain text with five words''"
  have a: "\<not> sublist (backslash # py ''section'') ?s" by (simp add: sublist_code(3))
  have b: "\<not> sublist (backslash # py ''subsection'') ?s" by (simp add: sublist_code(3))
  have c: "\<not> sublist (backslash # py ''documentclass'') ?s" by (simp add: sublist_code(3))
  have d: "count_words ?s = 6" by (simp add: count_words_def isspace_def)
  show ?thesis using plain_text_word_count [OF a b c] d by simp
qed

section \<open>The sectional counter on concrete documents\<close>

text \<open>
  Claim C1. The specification's first scenario: the document
  \<^verbatim>\<open>\section{Intro} Hello world. \subsection{Background} Some background text here.\<close>
  is expected to give one section with 2 words of its own, one subsection of 4 words
  and a total of 6. The program gives one section of 1 word, no subsection, and a
  total of 1: \<^verbatim>\<open>re.split\<close> returns three entries for each header (the header, its title,
  the text behind it), the loop walks the list in steps of two, so the entry behind the
  header, taken as the section's content, is the title.
\<close>

theorem scenario_intro_background:
  "parse_and_count
     (backslash # py ''section{Intro} Hello world. '' @
      backslash # py ''subsection{Background} Some background text here.'')
   = Inr (Tree \<lparr>res_total_words = 1, res_preamble = None,
        res_sections =
          [\<lparr>sec_title = py ''Intro'', sec_word_count = 1, sec_subsections = []\<rparr>]\<rparr>)"
  by (simp add: eval_defs)

text \<open>
  Claim C2. Every section header is expected to give one section, counted over the text
  up to the next header. For \<^verbatim>\<open>\section{A} one two \section{B} three\<close> the program
  gives the first section only, with the one word of its title as its count; the
  second header is never looked at as a header, since the loop reaches the list of
  \<^verbatim>\<open>re.split\<close> at the entries 1, 3, 5 and the second header is entry 4.
\<close>

theorem second_section_dropped:
  "parse_and_count (backslash # py ''section{A} one two '' @ backslash # py ''section{B} three'')
   = Inr (Tree \<lparr>res_total_words = 1, res_preamble = None,
        res_sections = [\<lparr>sec_title = py ''A'', sec_word_count = 1, sec_subsections = []\<rparr>]\<rparr>)"
  by (simp add: eval_defs)

text \<open>
  Claim C8. A subsection with a positive word count is expected among its section's
  children. For \<^verbatim>\<open>\section{A} intro \subsection{B} some words\<close> the subsection has two
  words, and the program gives the section no child: the content it splits at
  subsection headers is the section's title.
\<close>

theorem subsection_with_words_dropped:
  "parse_and_count
     (backslash # py ''section{A} intro '' @ backslash # py ''subsection{B} some words'')
   = Inr (Tree \<lparr>res_total_words = 1, res_preamble = None,
        res_sections = [\<lparr>sec_title = py ''A'', sec_word_count = 1, sec_subsections = []\<rparr>]\<rparr>)"
  by (simp add: eval_defs)

section \<open>The cleaner on concrete fragments\<close>

text \<open>
  Claim C6. Cleaning \<^verbatim>\<open>\cmd[opt]{arg}\<close> is expected to remove the command's name and its
  bracketed option. The program removes the name only and leaves \<^verbatim>\<open>[opt]arg\<close>: the
  pattern's optional group starts with a backslash, so it never matches at a bracket.
\<close>

theorem command_option_kept:
  "clean_latex (backslash # py ''cmd[opt]{arg}'') = py ''[opt]arg''"
  by (simp add: eval_defs)

section \<open>The list of \<^verbatim>\<open>re.split\<close> and the loops over it\<close>

lemma re_split_acc_not_Nil: "re_split_acc m acc s \<noteq> []"
  by (induction m acc s rule: re_split_acc.induct) (auto split: option.splits)

lemma re_search_last_piece:
  "re_search m (rev acc @ s) = re_search m s \<Longrightarrow> re_search m (last (re_split_acc m acc s)) = None"
  by (induction m acc s rule: re_split_acc.induct)
    (auto split: option.splits simp: re_split_acc_not_Nil)

lemma re_split_not_Nil: "re_split m s \<noteq> []"
  by (simp add: re_split_def re_split_acc_not_Nil)

lemma re_split_last: "re_search m (last (re_split m s)) = None"
  by (simp add: re_split_def re_search_last_piece)

text \<open>A list whose last entry holds no header: a header found at entry i has an entry behind it.\<close>

lemma match_not_last:
  assumes "re_search m (last xs) = None" and "i < length xs" and "re_search m (xs ! i) = Some t"
  shows "i + 1 < length xs"
proof (rule ccontr)
  assume "\<not> i + 1 < length xs"
  with assms(2) have "i = length xs - 1" and "xs \<noteq> []" by auto
  then have "xs ! i = last xs" by (simp add: last_conv_nth)
  with assms(1,3) show False by simp
qed

lemma subsection_loop_total:
  assumes "re_search subsection_pattern (last subsections) = None"
  shows "\<exists>d'. subsection_loop subsections j d = Inr d'"
  using assms
proof (induction subsections j d rule: subsection_loop.induct)
  case (1 subsections j section_data)
  show ?case
  proof (cases "j < length subsections")
    case False
    then show ?thesis by (simp add: subsection_loop.simps)
  next
    case True
    show ?thesis
    proof (cases "re_search subsection_pattern (subsections ! j)")
      case None
      with True 1 show ?thesis by (subst subsection_loop.simps) simp
    next
      case (Some t)
      have "j + 1 < length subsections"
        using match_not_last [OF "1.prems" True Some] .
      then have g: "getitem subsections (j + 1) = Inr (subsections ! (j + 1))"
        by (simp add: getitem_def)
      show ?thesis
        using True Some g "1.IH"(2) [OF True Some g refl refl] "1.IH"(3) [OF True Some g refl refl] "1.prems"
        by (subst subsection_loop.simps) (simp add: Let_def)
    qed
  qed
qed

lemma process_section_total: "\<exists>d. process_section t c = Inr d"
  unfolding process_section_def Let_def
  using subsection_loop_total [OF re_split_last]
  by (simp add: getitem_def re_split_not_Nil)


lemma subsection_loop_sum:
  assumes "subsection_loop subsections j d = Inr d'"
    and "sec_word_count d = w + subsections_words d"
  shows "sec_word_count d' = w + subsections_words d' \<and> sec_title d' = sec_title d"
  using assms
proof (induction subsections j d rule: subsection_loop.induct)
  case (1 subsections j section_data)
  note run = "1.prems"(1) and inv = "1.prems"(2)
  show ?case
  proof (cases "j < length subsections")
    case False
    with run inv show ?thesis by (simp add: subsection_loop.simps)
  next
    case True
    show ?thesis
    proof (cases "re_search subsection_pattern (subsections ! j)")
      case None
      with True run have "subsection_loop subsections (j + 2) section_data = Inr d'"
        by (subst (asm) subsection_loop.simps) simp
      from "1.IH"(1) [OF True None this inv] show ?thesis .
    next
      case (Some t)
      let ?n = "count_words (clean_latex (subsections ! (j + 1)))"
      from True Some run have g: "getitem subsections (j + 1) = Inr (subsections ! (j + 1))"
        by (subst (asm) subsection_loop.simps) (simp add: getitem_def split: if_splits)
      show ?thesis
      proof (cases "0 < ?n")
        case True
        let ?d = "section_data
          \<lparr>sec_subsections := sec_subsections section_data @
             [\<lparr>sub_title = t, sub_word_count = ?n\<rparr>],
           sec_word_count := sec_word_count section_data + ?n\<rparr>"
        from \<open>j < length subsections\<close> Some g True run
        have "subsection_loop subsections (j + 2) ?d = Inr d'"
          by (subst (asm) subsection_loop.simps) (simp add: Let_def)
        moreover have "sec_word_count ?d = w + subsections_words ?d"
          using inv by (simp add: subsections_words_def)
        ultimately show ?thesis
          using "1.IH"(2) [OF \<open>j < length subsections\<close> Some g refl refl True] by simp
      next
        case False
        from \<open>j < length subsections\<close> Some g False run
        have "subsection_loop subsections (j + 2) section_data = Inr d'"
          by (subst (asm) subsection_loop.simps) (simp add: Let_def)
        from "1.IH"(3) [OF \<open>j < length subsections\<close> Some g refl refl False this inv]
        show ?thesis .
      qed
    qed
  qed
qed

lemma process_section_sum:
  assumes "process_section t c = Inr d"
  shows "sec_word_count d =
      count_words (clean_latex (hd (re_split subsection_pattern c))) + subsections_words d
    \<and> sec_title d = t"
proof -
  let ?subs = "re_split subsection_pattern c"
  let ?d0 = "\<lparr>sec_title = t, sec_word_count = count_words (clean_latex (hd ?subs)),
     sec_subsections = []\<rparr>"
  have "?subs ! 0 = hd ?subs"
    by (simp add: hd_conv_nth re_split_not_Nil)
  with assms have "subsection_loop ?subs 1 ?d0 = Inr d"
    by (simp add: process_section_def Let_def getitem_def re_split_not_Nil)
  from subsection_loop_sum [OF this, of "count_words (clean_latex (hd ?subs))"]
  show ?thesis by (simp add: subsections_words_def)
qed

lemma section_loop_total:
  assumes "re_search section_pattern (last sections) = None"
  shows "\<exists>r'. section_loop sections i r = Inr r'"
  using assms
proof (induction sections i r rule: section_loop.induct)
  case (1 sections i results)
  show ?case
  proof (cases "i < length sections")
    case False
    then show ?thesis by (simp add: section_loop.simps)
  next
    case True
    show ?thesis
    proof (cases "re_search section_pattern (sections ! i)")
      case None
      with True 1 show ?thesis by (subst section_loop.simps) simp
    next
      case (Some t)
      have "i + 1 < length sections"
        using match_not_last [OF "1.prems" True Some] .
      then have g: "getitem sections (i + 1) = Inr (sections ! (i + 1))"
        by (simp add: getitem_def)
      obtain d where d: "process_section t (sections ! (i + 1)) = Inr d"
        using process_section_total by blast
      show ?thesis
        using True Some g d "1.IH"(2) [OF True Some g d] "1.prems"
        by (subst section_loop.simps) simp
    qed
  qed
qed

lemma section_loop_step:
  assumes "section_loop sections i r = Inr r'" and "i < length sections"
    and "re_search section_pattern (sections ! i) = Some t"
  obtains d where "i + 1 < length sections"
    and "process_section t (sections ! (i + 1)) = Inr d"
    and "section_loop sections (i + 2)
           (r\<lparr>res_sections := res_sections r @ [d],
              res_total_words := res_total_words r + sec_word_count d\<rparr>) = Inr r'"
proof -
  from assms have "i + 1 < length sections"
    by (subst (asm) section_loop.simps) (simp add: getitem_def split: if_splits)
  moreover obtain d where "process_section t (sections ! (i + 1)) = Inr d"
    using process_section_total by blast
  moreover from assms calculation
  have "section_loop sections (i + 2)
           (r\<lparr>res_sections := res_sections r @ [d],
              res_total_words := res_total_words r + sec_word_count d\<rparr>) = Inr r'"
    by (subst (asm) section_loop.simps) (simp add: getitem_def)
  ultimately show ?thesis using that by blast
qed

lemma section_loop_sum:
  assumes "section_loop sections i r = Inr r'"
    and "res_total_words r = p + sections_words r"
  shows "res_total_words r' = p + sections_words r' \<and> res_preamble r' = res_preamble r"
  using assms
proof (induction sections i r rule: section_loop.induct)
  case (1 sections i results)
  note run = "1.prems"(1) and inv = "1.prems"(2)
  show ?case
  proof (cases "i < length sections")
    case False
    with run inv show ?thesis by (simp add: section_loop.simps)
  next
    case True
    show ?thesis
    proof (cases "re_search section_pattern (sections ! i)")
      case None
      with True run have "section_loop sections (i + 2) results = Inr r'"
        by (subst (asm) section_loop.simps) simp
      from "1.IH"(1) [OF True None this inv] show ?thesis .
    next
      case (Some t)
      from section_loop_step [OF run True Some] obtain d
        where g: "i + 1 < length sections"
          and d: "process_section t (sections ! (i + 1)) = Inr d"
          and rest: "section_loop sections (i + 2)
             (results\<lparr>res_sections := res_sections results @ [d],
                res_total_words := res_total_words results + sec_word_count d\<rparr>) = Inr r'"
        by blast
      from g have g': "getitem sections (i + 1) = Inr (sections ! (i + 1))"
        by (simp add: getitem_def)
      from "1.IH"(2) [OF True Some g' d rest] inv show ?thesis
        by (simp add: sections_words_def)
    qed
  qed
qed

lemma section_loop_sections:
  assumes "section_loop sections i r = Inr r'" and "sec \<in> set (res_sections r')"
  shows "sec \<in> set (res_sections r) \<or>
    (\<exists>t c. c \<in> set sections \<and> process_section t c = Inr sec)"
  using assms
proof (induction sections i r rule: section_loop.induct)
  case (1 sections i results)
  note run = "1.prems"(1) and mem = "1.prems"(2)
  show ?case
  proof (cases "i < length sections")
    case False
    with run mem show ?thesis by (simp add: section_loop.simps)
  next
    case True
    show ?thesis
    proof (cases "re_search section_pattern (sections ! i)")
      case None
      with True run have "section_loop sections (i + 2) results = Inr r'"
        by (subst (asm) section_loop.simps) simp
      from "1.IH"(1) [OF True None this mem] show ?thesis .
    next
      case (Some t)
      from section_loop_step [OF run True Some] obtain d
        where g: "i + 1 < length sections"
          and d: "process_section t (sections ! (i + 1)) = Inr d"
          and rest: "section_loop sections (i + 2)
             (results\<lparr>res_sections := res_sections results @ [d],
                res_total_words := res_total_words results + sec_word_count d\<rparr>) = Inr r'"
        by blast
      from g have g': "getitem sections (i + 1) = Inr (sections ! (i + 1))"
        by (simp add: getitem_def)
      from g have "sections ! (i + 1) \<in> set sections" by simp
      with "1.IH"(2) [OF True Some g' d rest mem] d show ?thesis
        by auto
    qed
  qed
qed

lemma parse_and_count_total: "\<exists>r. parse_and_count content = Inr r"
proof (cases "is_latex content")
  case False
  then show ?thesis by (simp add: parse_and_count_def)
next
  case True
  let ?secs = "re_split section_pattern content"
  have "\<exists>r'. section_loop ?secs 1 r = Inr r'" for r
    using section_loop_total [OF re_split_last] .
  with True show ?thesis
    unfolding parse_and_count_def Let_def
    by (simp add: getitem_def re_split_not_Nil) (metis map_sum.simps(2))
qed


section \<open>The sum law\<close>

text \<open>
  Claim C3. For every input handled in LaTeX mode the program produces a result, and in
  it the total word count is the preamble's word count (0 when there is no preamble
  node) plus the sum of the sections' word counts; each section's word count is the
  count of the text before the first subsection header of what the program took as
  the section's content (an entry of the list of \<^verbatim>\<open>re.split\<close>), plus the word counts of
  the subsections it kept.
\<close>

theorem sum_law:
  assumes "is_latex content"
  shows "\<exists>r. parse_and_count content = Inr (Tree r)
    \<and> res_total_words r = preamble_words r + sections_words r
    \<and> (\<forall>sec \<in> set (res_sections r). \<exists>c \<in> set (re_split section_pattern content).
          sec_word_count sec =
            count_words (clean_latex (hd (re_split subsection_pattern c))) + subsections_words sec)"
proof -
  let ?secs = "re_split section_pattern content"
  let ?n = "count_words (clean_latex (?secs ! 0))"
  let ?r0 = "\<lparr>res_total_words = 0, res_preamble = None, res_sections = []\<rparr>"
  let ?r1 = "if 0 < ?n
    then ?r0\<lparr>res_preamble := Some ?n, res_total_words := res_total_words ?r0 + ?n\<rparr> else ?r0"
  obtain r where loop: "section_loop ?secs 1 ?r1 = Inr r"
    using section_loop_total [OF re_split_last] by blast
  with assms have run: "parse_and_count content = Inr (Tree r)"
    by (simp add: parse_and_count_def Let_def getitem_def re_split_not_Nil)
  have "res_total_words ?r1 = preamble_words ?r1 + sections_words ?r1"
    by (simp add: preamble_words_def sections_words_def)
  from section_loop_sum [OF loop this]
  have total: "res_total_words r = preamble_words r + sections_words r"
    by (simp add: preamble_words_def)
  have "\<exists>c \<in> set ?secs. sec_word_count sec =
      count_words (clean_latex (hd (re_split subsection_pattern c))) + subsections_words sec"
    if "sec \<in> set (res_sections r)" for sec
  proof -
    from section_loop_sections [OF loop that]
    obtain t c where "c \<in> set ?secs" and "process_section t c = Inr sec"
      by (auto split: if_splits)
    with process_section_sum show ?thesis by blast
  qed
  with run total show ?thesis by blast
qed

theorem sum_law_witness:
  "is_latex (py ''Two words '' @ backslash # py ''section{A longer title} text'')
   \<and> (\<exists>r. parse_and_count (py ''Two words '' @ backslash # py ''section{A longer title} text'')
          = Inr (Tree r)
        \<and> res_total_words r = 5 \<and> preamble_words r = 2 \<and> sections_words r = 3)"
proof -
  let ?s = "py ''Two words '' @ backslash # py ''section{A longer title} text''"
  have a: "is_latex ?s" by (simp add: is_latex_def sublist_code(3))
  have b: "parse_and_count ?s = Inr (Tree \<lparr>res_total_words = 5, res_preamble = Some 2,
        res_sections =
          [\<lparr>sec_title = py ''A longer title'', sec_word_count = 3, sec_subsections = []\<rparr>]\<rparr>)"
    by (simp add: eval_defs)
  from sum_law [OF a] a b show ?thesis
    by (simp add: preamble_words_def sections_words_def)
qed

section \<open>No fault\<close>

text \<open>
  Claim C9. For every input \<open>parse_and_count\<close> returns a result and no
  \<^verbatim>\<open>IndexError\<close>: the entry behind an entry of the list of \<^verbatim>\<open>re.split\<close> in which a
  header is found exists, for the sections and for the subsections of any section
  content. No operation of \<open>clean_latex\<close> can raise (substitutions, \<^verbatim>\<open>splitlines\<close>,
  \<^verbatim>\<open>strip\<close>, \<^verbatim>\<open>join\<close>), so it is a total function on strings, and every function of the
  model terminates.
\<close>

theorem no_fault:
  "(\<exists>r. parse_and_count content = Inr r)
   \<and> (\<forall>i t. i < length (re_split section_pattern content) \<longrightarrow>
          re_search section_pattern (re_split section_pattern content ! i) = Some t \<longrightarrow>
          i + 1 < length (re_split section_pattern content))
   \<and> (\<forall>section_content j t. j < length (re_split subsection_pattern section_content) \<longrightarrow>
          re_search subsection_pattern (re_split subsection_pattern section_content ! j) = Some t \<longrightarrow>
          j + 1 < length (re_split subsection_pattern section_content))"
  using parse_and_count_total match_not_last [OF re_split_last] by blast

theorem no_fault_witness:
  "(\<exists>r. parse_and_count (backslash # py ''section{A} x'') = Inr r)
   \<and> re_search section_pattern (re_split section_pattern (backslash # py ''section{A} x'') ! 1)
       = Some (py ''A'')
   \<and> 2 < length (re_split section_pattern (backslash # py ''section{A} x''))"
proof -
  let ?s = "backslash # py ''section{A} x''"
  have a: "1 < length (re_split section_pattern ?s)"
    by (simp add: re_split_def section_pattern_def match_header_def Let_def)
  have b: "re_search section_pattern (re_split section_pattern ?s ! 1) = Some (py ''A'')"
    by (simp add: re_split_def section_pattern_def match_header_def Let_def)
  from no_fault [of ?s] a b show ?thesis by auto
qed


section \<open>Nodes without words\<close>

text \<open>
  What the program does about nodes without words: the result has a preamble node
  exactly when the cleaned text before the first header has a word, and every
  subsection node of the result has a positive word count. (Which text the loop over
  the subsections is given is another matter: it is the section's title.)
\<close>

lemma subsection_loop_positive:
  assumes "subsection_loop subsections j d = Inr d'"
    and "\<forall>x \<in> set (sec_subsections d). 0 < sub_word_count x"
  shows "\<forall>x \<in> set (sec_subsections d'). 0 < sub_word_count x"
  using assms
proof (induction subsections j d rule: subsection_loop.induct)
  case (1 subsections j section_data)
  note run = "1.prems"(1) and inv = "1.prems"(2)
  show ?case
  proof (cases "j < length subsections")
    case False
    with run inv show ?thesis by (simp add: subsection_loop.simps)
  next
    case True
    show ?thesis
    proof (cases "re_search subsection_pattern (subsections ! j)")
      case None
      with True run have "subsection_loop subsections (j + 2) section_data = Inr d'"
        by (subst (asm) subsection_loop.simps) simp
      from "1.IH"(1) [OF True None this inv] show ?thesis .
    next
      case (Some t)
      let ?n = "count_words (clean_latex (subsections ! (j + 1)))"
      from True Some run have g: "getitem subsections (j + 1) = Inr (subsections ! (j + 1))"
        by (subst (asm) subsection_loop.simps) (simp add: getitem_def split: if_splits)
      show ?thesis
      proof (cases "0 < ?n")
        case True
        let ?d = "section_data
          \<lparr>sec_subsections := sec_subsections section_data @
             [\<lparr>sub_title = t, sub_word_count = ?n\<rparr>],
           sec_word_count := sec_word_count section_data + ?n\<rparr>"
        from \<open>j < length subsections\<close> Some g True run
        have a: "subsection_loop subsections (j + 2) ?d = Inr d'"
          by (subst (asm) subsection_loop.simps) (simp add: Let_def)
        have b: "\<forall>x \<in> set (sec_subsections ?d). 0 < sub_word_count x"
          using inv True by simp
        from "1.IH"(2) [OF \<open>j < length subsections\<close> Some g refl refl True a b]
        show ?thesis .
      next
        case False
        from \<open>j < length subsections\<close> Some g False run
        have "subsection_loop subsections (j + 2) section_data = Inr d'"
          by (subst (asm) subsection_loop.simps) (simp add: Let_def)
        from "1.IH"(3) [OF \<open>j < length subsections\<close> Some g refl refl False this inv]
        show ?thesis .
      qed
    qed
  qed
qed

lemma process_section_positive:
  assumes "process_section t c = Inr d"
  shows "\<forall>x \<in> set (sec_subsections d). 0 < sub_word_count x"
proof -
  let ?subs = "re_split subsection_pattern c"
  let ?d0 = "\<lparr>sec_title = t, sec_word_count = count_words (clean_latex (?subs ! 0)),
     sec_subsections = []\<rparr>"
  from assms have "subsection_loop ?subs 1 ?d0 = Inr d"
    by (simp add: process_section_def Let_def getitem_def re_split_not_Nil)
  from subsection_loop_positive [OF this] show ?thesis by simp
qed

lemma omission_rule:
  assumes "parse_and_count content = Inr (Tree r)"
  shows "res_preamble r =
      (let n = count_words (clean_latex (hd (re_split section_pattern content)))
       in if 0 < n then Some n else None)"
    and "\<forall>sec \<in> set (res_sections r). \<forall>x \<in> set (sec_subsections sec). 0 < sub_word_count x"
proof -
  let ?secs = "re_split section_pattern content"
  let ?n = "count_words (clean_latex (?secs ! 0))"
  let ?r0 = "\<lparr>res_total_words = 0, res_preamble = None, res_sections = []\<rparr>"
  let ?r1 = "if 0 < ?n
    then ?r0\<lparr>res_preamble := Some ?n, res_total_words := res_total_words ?r0 + ?n\<rparr> else ?r0"
  have latex: "is_latex content"
  proof (rule ccontr)
    assume "\<not> is_latex content"
    with assms show False by (simp add: parse_and_count_def)
  qed
  with assms have "map_sum id Tree (section_loop ?secs 1 ?r1) = Inr (Tree r)"
    by (simp add: parse_and_count_def Let_def getitem_def re_split_not_Nil)
  then have loop: "section_loop ?secs 1 ?r1 = Inr r"
    by (cases "section_loop ?secs 1 ?r1") simp_all
  have hd: "?secs ! 0 = hd ?secs"
    by (simp add: hd_conv_nth re_split_not_Nil)
  have "res_total_words ?r1 = preamble_words ?r1 + sections_words ?r1"
    by (simp add: preamble_words_def sections_words_def)
  from section_loop_sum [OF loop this] have "res_preamble r = res_preamble ?r1" by simp
  then show "res_preamble r =
      (let n = count_words (clean_latex (hd (re_split section_pattern content)))
       in if 0 < n then Some n else None)"
    by (simp add: hd Let_def)
  show "\<forall>sec \<in> set (res_sections r). \<forall>x \<in> set (sec_subsections sec). 0 < sub_word_count x"
  proof
    fix sec assume "sec \<in> set (res_sections r)"
    from section_loop_sections [OF loop this]
    obtain t c where "process_section t c = Inr sec"
      by (auto split: if_splits)
    then show "\<forall>x \<in> set (sec_subsections sec). 0 < sub_word_count x"
      by (rule process_section_positive)
  qed
qed

section \<open>Cleaning and the word count\<close>

lemma re_sub_subseq: "subseq (re_sub m s) s"
proof (induction m s rule: re_sub.induct)
  case (1 m)
  show ?case by simp
next
  case (2 m c cs)
  show ?case
  proof (cases "m (c # cs)")
    case None
    with 2 show ?thesis by simp
  next
    case (Some n)
    have "subseq (drop (n - 1) cs) cs"
      by (metis append_take_drop_id list_emb_append2 subseq_order.order_refl)
    with 2(2) [OF Some] have "subseq (re_sub m (drop (n - 1) cs)) cs"
      by (rule subseq_order.trans)
    with Some show ?thesis by (simp add: list_emb_Cons)
  qed
qed

lemma remove_environment_subseq: "subseq (remove_environment s env) s"
  unfolding remove_environment_def
  by (rule subseq_order.trans [OF re_sub_subseq re_sub_subseq])

lemma foldl_remove_environment_subseq: "subseq (foldl remove_environment s envs) s"
proof (induction envs arbitrary: s)
  case Nil
  show ?case by simp
next
  case (Cons env envs)
  from Cons [of "remove_environment s env"] remove_environment_subseq [of s env]
  show ?case by (auto intro: subseq_order.trans)
qed

lemma count_from_flag: "count_from True s \<le> count_from False s \<and> count_from False s \<le> Suc (count_from True s)"
  by (cases s) auto

lemma count_from_subseq: "subseq t s \<Longrightarrow> count_from b t \<le> count_from b s"
proof (induction arbitrary: b rule: list_emb.induct)
  case (list_emb_Nil ys)
  show ?case by simp
next
  case (list_emb_Cons xs ys y)
  have "count_from b xs \<le> count_from b ys" by (rule list_emb_Cons.IH)
  also have "count_from b ys \<le> count_from b (y # ys)"
    using count_from_flag [of ys] by (cases b) auto
  finally show ?case .
next
  case (list_emb_Cons2 x y xs ys)
  then show ?case by (auto simp: add_le_mono)
qed

lemma count_words_subseq: "subseq t s \<Longrightarrow> count_words t \<le> count_words s"
  by (simp add: count_words_count_from count_from_subseq)

lemma islinebreak_isspace: "islinebreak c \<Longrightarrow> isspace c"
  by (auto simp: islinebreak_def isspace_def)

lemma str_split_append_space:
  "isspace w \<Longrightarrow> str_split (a @ w # b) = str_split a @ str_split b"
proof (induction a rule: str_split.induct)
  case 1
  then show ?case by simp
next
  case (2 c cs)
  show ?case
  proof (cases "isspace c")
    case True
    with 2 show ?thesis by simp
  next
    case False
    have t: "takeWhile (\<lambda>x. \<not> isspace x) (cs @ w # b) = takeWhile (\<lambda>x. \<not> isspace x) cs"
      using \<open>isspace w\<close> by (simp add: takeWhile_append) (metis takeWhile_eq_all_conv)
    have d: "dropWhile (\<lambda>x. \<not> isspace x) (cs @ w # b) = dropWhile (\<lambda>x. \<not> isspace x) cs @ w # b"
      using \<open>isspace w\<close> by (simp add: dropWhile_append)
    from False 2(2) [OF False \<open>isspace w\<close>] show ?thesis
      by (simp add: t d)
  qed
qed

lemma str_split_snoc_space: "isspace w \<Longrightarrow> str_split (a @ [w]) = str_split a"
  using str_split_append_space [of w a "[]"] by simp

lemma str_split_dropWhile: "str_split (dropWhile isspace s) = str_split s"
  by (induction s) auto

lemma str_split_drop_trailing: "str_split (rev (dropWhile isspace (rev s))) = str_split s"
  by (induction s rule: rev_induct) (auto simp: str_split_snoc_space)

lemma str_split_strip: "str_split (strip s) = str_split s"
  by (simp add: strip_def str_split_drop_trailing str_split_dropWhile)

lemma str_split_join: "str_split (join LF ls) = concat (map str_split ls)"
  by (induction LF ls rule: join.induct) (auto simp: str_split_append_space isspace_def)

lemma splitlines_Cons:
  assumes "line = takeWhile (\<lambda>x. \<not> islinebreak x) (c # cs)"
    and "rest = dropWhile (\<lambda>x. \<not> islinebreak x) (c # cs)"
  shows "splitlines (c # cs) =
    (case rest of
       [] \<Rightarrow> [line]
     | b # r \<Rightarrow>
         (case r of
            [] \<Rightarrow> [line]
          | d # r' \<Rightarrow> if b = CR \<and> d = LF then line # splitlines r' else line # splitlines (d # r')))"
  unfolding assms by (subst splitlines.simps) (simp only: Let_def)

lemma str_split_splitlines: "concat (map str_split (splitlines s)) = str_split s"
proof (induction s rule: splitlines.induct)
  case 1
  show ?case by (simp add: splitlines.simps)
next
  case (2 c cs)
  define line where "line = takeWhile (\<lambda>x. \<not> islinebreak x) (c # cs)"
  define rest where "rest = dropWhile (\<lambda>x. \<not> islinebreak x) (c # cs)"
  note unfold = splitlines_Cons [OF line_def rest_def]
  have s: "c # cs = line @ rest"
    unfolding line_def rest_def by (rule takeWhile_dropWhile_id [symmetric])
  show ?case
  proof (cases rest)
    case Nil
    with s unfold show ?thesis by simp
  next
    case (Cons b r)
    then have "islinebreak b"
      unfolding rest_def by (metis hd_dropWhile list.sel(1) list.distinct(1))
    then have b: "isspace b" by (rule islinebreak_isspace)
    show ?thesis
    proof (cases r)
      case Nil
      with Cons s unfold show ?thesis
        by (simp add: str_split_snoc_space [OF b])
    next
      case r: (Cons d r')
      have sp: "str_split (c # cs) = str_split line @ str_split (d # r')"
        unfolding s Cons r by (rule str_split_append_space [OF b])
      show ?thesis
      proof (cases "b = CR \<and> d = LF")
        case True
        then have "str_split (d # r') = str_split r'" by (simp add: isspace_def)
        with unfold Cons r True sp 2(1) [OF refl Cons [unfolded rest_def] r True]
        show ?thesis by (simp del: str_split.simps)
      next
        case False
        with unfold Cons r sp 2(2) [OF refl Cons [unfolded rest_def] r False]
        show ?thesis by (simp del: str_split.simps)
      qed
    qed
  qed
qed

lemma str_split_strip_lines: "str_split (strip_lines s) = str_split s"
  by (simp add: strip_lines_def str_split_join str_split_strip str_split_splitlines comp_def)

text \<open>
  Claim C10. Cleaning never increases the word count: every substitution of
  \<open>clean_latex\<close> only deletes characters, which adds no token, and the last step leaves
  the tokens as they are.
\<close>

theorem cleaning_never_adds_words: "count_words (clean_latex s) \<le> count_words s"
proof -
  let ?s1 = "re_sub match_comment s"
  let ?s2 = "foldl remove_environment ?s1 environments_to_remove"
  let ?s3 = "re_sub match_display_dollars ?s2"
  let ?s4 = "re_sub match_display_brackets ?s3"
  let ?s5 = "re_sub match_inline_math ?s4"
  let ?s6 = "re_sub match_command_args ?s5"
  let ?s7 = "re_sub match_command ?s6"
  let ?s8 = "re_sub match_brace ?s7"
  have "subseq ?s8 ?s7" by (rule re_sub_subseq)
  also have "subseq ?s7 ?s6" by (rule re_sub_subseq)
  also have "subseq ?s6 ?s5" by (rule re_sub_subseq)
  also have "subseq ?s5 ?s4" by (rule re_sub_subseq)
  also have "subseq ?s4 ?s3" by (rule re_sub_subseq)
  also have "subseq ?s3 ?s2" by (rule re_sub_subseq)
  also have "subseq ?s2 ?s1" by (rule foldl_remove_environment_subseq)
  also have "subseq ?s1 s" by (rule re_sub_subseq)
  finally have "count_words ?s8 \<le> count_words s" by (rule count_words_subseq)
  moreover have "count_words (clean_latex s) = count_words ?s8"
    by (simp add: clean_latex_def Let_def count_words_def str_split_strip_lines)
  ultimately show ?thesis by simp
qed


section \<open>Comment removal\<close>

lemma lf_lines_not_Nil: "lf_lines s \<noteq> []"
  by (induction s) (auto split: list.splits)

lemma lf_lines_dropWhile:
  "\<exists>l. lf_lines (dropWhile (\<lambda>x. x \<noteq> LF) cs) = [] # tl (lf_lines cs) \<and> lf_lines cs = l # tl (lf_lines cs)"
proof (induction cs)
  case Nil
  show ?case by simp
next
  case (Cons c cs)
  then show ?case
    by (cases "lf_lines cs") (auto simp: lf_lines_not_Nil)
qed

text \<open>
  Claim C5, as amended. The comment-removal step cuts every line (between line feeds) at
  its first percent sign, whatever stands before the sign: a percent sign behind a
  backslash starts a comment like any other, and the text behind it on the line is
  removed.
\<close>

theorem comment_removal:
  "re_sub match_comment s = join LF (map uncomment_line (lf_lines s))"
proof (induction "match_comment" s rule: re_sub.induct)
  case 1
  show ?case by (simp add: uncomment_line_def)
next
  case (2 c cs)
  obtain l ls where ls: "lf_lines cs = l # ls"
    using lf_lines_not_Nil by (cases "lf_lines cs") auto
  show ?case
  proof (cases "c = ord CHR ''%''")
    case True
    let ?n = "1 + length (takeWhile (\<lambda>x. x \<noteq> LF) cs)"
    have m: "match_comment (c # cs) = Some ?n"
      using True by (simp add: match_comment_def)
    have d: "drop (?n - 1) cs = dropWhile (\<lambda>x. x \<noteq> LF) cs"
      by (simp add: dropWhile_eq_drop)
    from lf_lines_dropWhile [of cs] ls
    have e: "lf_lines (dropWhile (\<lambda>x. x \<noteq> LF) cs) = [] # ls" by auto
    have "re_sub match_comment (c # cs) = re_sub match_comment (dropWhile (\<lambda>x. x \<noteq> LF) cs)"
      using m d by simp
    also have "\<dots> = join LF (map uncomment_line ([] # ls))"
      using 2(2) [OF m] d e by simp
    also have "\<dots> = join LF (map uncomment_line (lf_lines (c # cs)))"
      using True ls by (simp add: uncomment_line_def)
    finally show ?thesis .
  next
    case False
    then have m: "match_comment (c # cs) = None"
      by (simp add: match_comment_def)
    with 2(1) [OF m] have r: "re_sub match_comment (c # cs) = c # join LF (map uncomment_line (l # ls))"
      using ls by simp
    show ?thesis
    proof (cases "c = LF")
      case True
      with r ls show ?thesis
        by (simp add: uncomment_line_def)
    next
      case F: False
      have "join LF ((c # uncomment_line l) # map uncomment_line ls) = c # join LF (uncomment_line l # map uncomment_line ls)"
        by (cases ls) auto
      with r ls F False show ?thesis
        by (simp add: uncomment_line_def)
    qed
  qed
qed

text \<open>
  Claim C5 as stated fails: the text behind the escaped percent sign of \<^verbatim>\<open>50\% of all\<close>
  is removed by the step.
\<close>

theorem escaped_percent_starts_comment:
  "re_sub match_comment (py ''50'' @ backslash # py ''% of all'') = py ''50'' @ [backslash]"
  by (simp add: match_comment_def)

section \<open>Cleaning cleaned text\<close>

lemma splitlines_line_break:
  assumes "\<forall>c \<in> set l. \<not> islinebreak c"
  shows "splitlines (l @ LF # z) = l # splitlines z"
proof -
  have lb: "islinebreak LF" by (simp add: islinebreak_def)
  obtain c cs where s: "l @ LF # z = c # cs" by (cases l) auto
  have t: "takeWhile (\<lambda>x. \<not> islinebreak x) (l @ LF # z) = l"
    using assms lb by (simp add: takeWhile_append)
  have d: "dropWhile (\<lambda>x. \<not> islinebreak x) (l @ LF # z) = LF # z"
    using assms lb by (simp add: dropWhile_append)
  from splitlines_Cons [OF refl refl, of c cs] show ?thesis
    unfolding s [symmetric] t d
    by (cases z) (simp_all add: splitlines.simps(1))
qed

lemma splitlines_one_line:
  assumes "\<forall>c \<in> set l. \<not> islinebreak c" and "l \<noteq> []"
  shows "splitlines l = [l]"
proof -
  obtain c cs where s: "l = c # cs" using assms(2) by (cases l) auto
  have t: "takeWhile (\<lambda>x. \<not> islinebreak x) l = l"
    using assms by (simp add: takeWhile_eq_all_conv)
  have d: "dropWhile (\<lambda>x. \<not> islinebreak x) l = []"
    using assms by simp
  from splitlines_Cons [OF refl refl, of c cs] show ?thesis
    unfolding s [symmetric] t d by simp
qed

lemma splitlines_join:
  assumes "\<forall>l \<in> set ls. \<forall>c \<in> set l. \<not> islinebreak c"
  shows "splitlines (join LF ls) = (if ls \<noteq> [] \<and> last ls = [] then butlast ls else ls)"
  using assms
proof (induction LF ls rule: join.induct)
  case 1
  show ?case by (simp add: splitlines.simps)
next
  case (2 l)
  then show ?case
    by (cases "l = []") (simp_all add: splitlines.simps(1) splitlines_one_line)
next
  case (3 l l' ls)
  then show ?case
    by (simp add: splitlines_line_break)
qed

lemma join_ends_with_line_feed:
  "ls \<noteq> [] \<Longrightarrow> last (l # ls) = [] \<Longrightarrow> suffix [LF] (join LF (l # ls))"
proof (induction ls arbitrary: l)
  case Nil
  then show ?case by simp
next
  case (Cons l' ls)
  show ?case
  proof (cases ls)
    case Nil
    with Cons.prems show ?thesis by (simp add: suffix_def)
  next
    case (Cons a as)
    with Cons.IH [of l'] Cons.prems have "suffix [LF] (join LF (l' # ls))" by simp
    then show ?thesis
      by (auto simp: suffix_def Cons_eq_append_conv)
  qed
qed

lemma splitlines_no_linebreak: "l \<in> set (splitlines s) \<Longrightarrow> c \<in> set l \<Longrightarrow> \<not> islinebreak c"
proof (induction s rule: splitlines.induct)
  case 1
  then show ?case by (simp add: splitlines.simps)
next
  case (2 x xs)
  define line where "line = takeWhile (\<lambda>x. \<not> islinebreak x) (x # xs)"
  define rest where "rest = dropWhile (\<lambda>x. \<not> islinebreak x) (x # xs)"
  note unfold = splitlines_Cons [OF line_def rest_def]
  have line: "c \<in> set line \<Longrightarrow> \<not> islinebreak c"
    unfolding line_def by (auto dest: set_takeWhileD)
  show ?case
  proof (cases rest)
    case Nil
    with unfold "2.prems" line show ?thesis by simp
  next
    case (Cons b r)
    show ?thesis
    proof (cases r)
      case Nil
      with Cons unfold "2.prems" line show ?thesis by simp
    next
      case r: (Cons d r')
      show ?thesis
      proof (cases "b = CR \<and> d = LF")
        case True
        with unfold Cons r "2.prems" line "2.IH"(1) [OF refl Cons [unfolded rest_def] r True]
        show ?thesis by auto
      next
        case False
        with unfold Cons r "2.prems" line "2.IH"(2) [OF refl Cons [unfolded rest_def] r False]
        show ?thesis by auto
      qed
    qed
  qed
qed

lemma set_strip: "set (strip l) \<subseteq> set l"
  unfolding strip_def by (metis set_dropWhileD set_rev subsetI)

lemma strip_strip: "strip (strip l) = strip l"
proof -
  define a where "a = dropWhile isspace l"
  define b where "b = rev (dropWhile isspace (rev a))"
  have sb: "strip l = b" by (simp add: strip_def a_def b_def)
  have "dropWhile isspace b = b"
  proof (cases b)
    case Nil
    then show ?thesis by simp
  next
    case (Cons y ys)
    have "rev a = takeWhile isspace (rev a) @ rev b"
      by (simp add: b_def)
    then have "rev (rev a) = rev (takeWhile isspace (rev a) @ rev b)" by simp
    then have "a = b @ rev (takeWhile isspace (rev a))" by simp
    then obtain u where "a = b @ u" ..
    with Cons have "a \<noteq> []" and "hd a = y" by auto
    moreover from \<open>a \<noteq> []\<close> have "\<not> isspace (hd a)"
      unfolding a_def by (rule hd_dropWhile)
    ultimately show ?thesis using Cons by simp
  qed
  moreover have "rev (dropWhile isspace (rev b)) = b"
    by (simp add: b_def dropWhile_idem)
  ultimately show ?thesis by (simp add: sb) (simp add: strip_def)
qed

lemma strip_lines_fixed:
  assumes "\<not> suffix [LF] (strip_lines s)"
  shows "strip_lines (strip_lines s) = strip_lines s"
proof -
  define ls where "ls = map strip (splitlines s)"
  have t: "strip_lines s = join LF ls" by (simp add: strip_lines_def ls_def)
  have free: "\<forall>l \<in> set ls. \<forall>c \<in> set l. \<not> islinebreak c"
    unfolding ls_def using splitlines_no_linebreak set_strip by fastforce
  have stripped: "map strip ls = ls"
    by (simp add: ls_def strip_strip)
  show ?thesis
  proof (cases "ls \<noteq> [] \<and> last ls = []")
    case False
    with splitlines_join [OF free] have "splitlines (join LF ls) = ls" by simp
    with stripped have "strip_lines (join LF ls) = join LF ls"
      by (simp only: strip_lines_def)
    then show ?thesis by (simp only: t)
  next
    case True
    show ?thesis
    proof (cases ls)
      case Nil
      with True show ?thesis by simp
    next
      case (Cons l ls')
      show ?thesis
      proof (cases ls')
        case Nil
        with Cons True have "join LF ls = []" by simp
        then show ?thesis by (simp add: t) (simp add: strip_lines_def splitlines.simps)
      next
        case c: (Cons a as)
        with Cons True join_ends_with_line_feed [of ls' l] have "suffix [LF] (join LF ls)" by simp
        with assms t show ?thesis by simp
      qed
    qed
  qed
qed

lemma subseq_set: "subseq t s \<Longrightarrow> set t \<subseteq> set s"
  by (auto elim: list_emb_set)

lemma re_sub_unchanged:
  "(\<And>c cs. c \<in> set x \<Longrightarrow> m (c # cs) = None) \<Longrightarrow> re_sub m x = x"
  by (induction x) auto

lemma single_dollar_seen: "single_dollar True x \<Longrightarrow> single_dollar False x"
  by (induction x) auto

lemma single_dollar_prefix: "single_dollar b (a @ z) \<Longrightarrow> single_dollar b a"
  by (induction a arbitrary: b) (auto split: if_splits)

lemma single_dollar_suffix: "single_dollar b (a @ z) \<Longrightarrow> single_dollar False z"
proof (induction a arbitrary: b)
  case Nil
  then show ?case by (cases b) (auto dest: single_dollar_seen)
next
  case (Cons c a)
  then show ?case by (auto split: if_splits)
qed

lemma single_dollar_sublist: "sublist l x \<Longrightarrow> single_dollar b x \<Longrightarrow> single_dollar False l"
  unfolding sublist_def using single_dollar_prefix single_dollar_suffix by blast

lemma single_dollar_cut:
  "single_dollar b (seg @ rest) \<Longrightarrow> LF \<notin> set seg \<Longrightarrow> single_dollar b rest"
  by (induction seg arbitrary: b) (auto split: if_splits dest: single_dollar_seen)

lemma single_dollar_re_sub:
  assumes "single_dollar b x"
    and "\<And>u n. m u = Some n \<Longrightarrow> 0 < n \<and> LF \<notin> set (take n u)"
  shows "single_dollar b (re_sub m x)"
  using assms
proof (induction m x arbitrary: b rule: re_sub.induct)
  case (1 m)
  show ?case by simp
next
  case (2 m c cs)
  show ?case
  proof (cases "m (c # cs)")
    case None
    with 2(1) [OF None _ "2.prems"(2)] "2.prems"(1) show ?thesis
      by (auto split: if_splits)
  next
    case (Some n)
    with "2.prems"(2) have n: "0 < n" and free: "LF \<notin> set (take n (c # cs))" by auto
    from n have d: "drop (n - 1) cs = drop n (c # cs)" by (cases n) auto
    have "single_dollar b (take n (c # cs) @ drop n (c # cs))"
      using "2.prems"(1) by simp
    from single_dollar_cut [OF this free] have "single_dollar b (drop (n - 1) cs)"
      by (simp only: d)
    from 2(2) [OF Some this "2.prems"(2)] Some show ?thesis by simp
  qed
qed


lemma find_on_line_free: "find_on_line d cs = Some k \<Longrightarrow> LF \<notin> set (take k cs)"
  by (induction cs arbitrary: k) (auto split: if_splits)

lemma bracket_run_free: "bracket_run cs = Some k \<Longrightarrow> LF \<notin> set (take k cs)"
proof (induction cs arbitrary: k)
  case Nil
  then show ?case by simp
next
  case (Cons c cs)
  show ?case
  proof (cases "c = ord CHR '']''")
    case True
    with Cons.prems show ?thesis by auto
  next
    case False
    with Cons.prems obtain k' where "bracket_run cs = Some k'" and "k = Suc k'"
      and "c = ord CHR ''['' \<or> c = ord CHR ''^''"
      by (auto split: if_splits)
    with Cons.IH [of k'] show ?thesis by auto
  qed
qed

lemma take_add_free:
  "LF \<notin> set (take n cs) \<Longrightarrow> LF \<notin> set (take k (drop n cs)) \<Longrightarrow> LF \<notin> set (take (n + k) cs)"
  by (simp add: take_add)

lemma letters_free: "LF \<notin> set (takeWhile isletter cs)"
  by (auto dest: set_takeWhileD simp: isletter_def)

lemma option_group_free: "LF \<notin> set (take (option_group cs) cs)"
proof (cases cs)
  case Nil
  then show ?thesis by simp
next
  case (Cons c cs')
  show ?thesis
  proof (cases "c = backslash")
    case True
    then show ?thesis
      using Cons bracket_run_free [of cs']
      by (auto simp: option_group_def split: option.splits)
  next
    case False
    with Cons show ?thesis by (simp add: option_group_def)
  qed
qed

lemma argument_group_free: "LF \<notin> set (take (argument_group cs) cs)"
proof (cases cs)
  case Nil
  then show ?thesis by simp
next
  case (Cons c cs')
  show ?thesis
  proof (cases "find_on_line (ord CHR ''}'') cs'")
    case None
    with Cons show ?thesis by (simp add: argument_group_def)
  next
    case (Some k)
    have "find_on_line (ord CHR ''}'') cs' = Some k \<Longrightarrow> k < length cs' \<and> cs' ! k = ord CHR ''}''" for k
      by (induction cs' arbitrary: k) (auto split: if_splits)
    with Some have k: "k < length cs'" and e: "cs' ! k = ord CHR ''}''" by auto
    have "take (Suc k) cs' = take k cs' @ [cs' ! k]"
      using k by (rule take_Suc_conv_app_nth)
    with find_on_line_free [OF Some] e have "LF \<notin> set (take (Suc k) cs')" by simp
    with Cons Some show ?thesis
      by (auto simp: argument_group_def)
  qed
qed

lemma match_command_free:
  "match_command u = Some n \<Longrightarrow> 0 < n \<and> LF \<notin> set (take n u)"
  using letters_free
  by (cases u) (auto simp: match_command_def takeWhile_eq_take [symmetric] split: if_splits)

lemma match_brace_free:
  "match_brace u = Some n \<Longrightarrow> 0 < n \<and> LF \<notin> set (take n u)"
  by (cases u) (auto simp: match_brace_def split: if_splits)

lemma match_command_args_free:
  assumes "match_command_args u = Some n"
  shows "0 < n \<and> LF \<notin> set (take n u)"
proof -
  from assms obtain cs where u: "u = backslash # cs" and ne: "takeWhile isletter cs \<noteq> []"
    by (cases u) (auto simp: match_command_args_def split: if_splits)
  define k where "k = length (takeWhile isletter cs)"
  define g1 where "g1 = option_group (drop k cs)"
  define g2 where "g2 = argument_group (drop (k + g1) cs)"
  from assms u ne have n: "n = 1 + k + g1 + g2"
    by (auto simp: match_command_args_def Let_def k_def g1_def g2_def)
  have "take k cs = takeWhile isletter cs"
    unfolding k_def by (rule takeWhile_eq_take [symmetric])
  with letters_free have a: "LF \<notin> set (take k cs)" by simp
  have b: "LF \<notin> set (take g1 (drop k cs))"
    unfolding g1_def by (rule option_group_free)
  have c: "LF \<notin> set (take g2 (drop (k + g1) cs))"
    unfolding g2_def by (rule argument_group_free)
  from take_add_free [OF a b] have "LF \<notin> set (take (k + g1) cs)" .
  from take_add_free [OF this c] have "LF \<notin> set (take (k + g1 + g2) cs)" .
  with u n show ?thesis by simp
qed

lemma single_dollar_find: "single_dollar True cs \<Longrightarrow> find_on_line (ord CHR ''$'') cs = None"
  by (induction cs) (auto split: if_splits)

lemma single_dollar_inline_math:
  "single_dollar False (re_sub match_inline_math x) \<and>
   (find_on_line (ord CHR ''$'') x = None \<longrightarrow> single_dollar True (re_sub match_inline_math x))"
proof (induction "match_inline_math" x rule: re_sub.induct)
  case 1
  show ?case by simp
next
  case (2 c cs)
  show ?case
  proof (cases "match_inline_math (c # cs)")
    case (Some n)
    then have "c = ord CHR ''$''"
      by (auto simp: match_inline_math_def split: if_splits)
    with Some 2(2) [OF Some] show ?thesis by simp
  next
    case None
    note ih = 2(1) [OF None]
    show ?thesis
    proof (cases "c = ord CHR ''$''")
      case True
      with None have "find_on_line (ord CHR ''$'') cs = None"
        by (simp add: match_inline_math_def)
      with ih None True show ?thesis by simp
    next
      case False
      with ih None show ?thesis by (auto split: if_splits)
    qed
  qed
qed

lemma inline_math_unchanged: "single_dollar b x \<Longrightarrow> re_sub match_inline_math x = x"
proof (induction x arbitrary: b)
  case Nil
  show ?case by simp
next
  case (Cons c cs)
  have "match_inline_math (c # cs) = None"
    using Cons.prems single_dollar_find [of cs]
    by (auto simp: match_inline_math_def split: if_splits)
  moreover have "re_sub match_inline_math cs = cs"
    using Cons.prems Cons.IH by (auto split: if_splits)
  ultimately show ?case by simp
qed

lemma display_dollars_unchanged: "single_dollar b x \<Longrightarrow> re_sub match_display_dollars x = x"
proof (induction x arbitrary: b)
  case Nil
  show ?case by simp
next
  case (Cons c cs)
  have "match_display_dollars (c # cs) = None"
    using Cons.prems
    by (cases cs) (auto simp: match_display_dollars_def match_span_def split: if_splits)
  moreover have "re_sub match_display_dollars cs = cs"
    using Cons.prems Cons.IH by (auto split: if_splits)
  ultimately show ?case by simp
qed


lemma splitlines_sublist: "l \<in> set (splitlines s) \<Longrightarrow> sublist l s"
proof (induction s rule: splitlines.induct)
  case 1
  then show ?case by (simp add: splitlines.simps)
next
  case (2 x xs)
  define line where "line = takeWhile (\<lambda>x. \<not> islinebreak x) (x # xs)"
  define rest where "rest = dropWhile (\<lambda>x. \<not> islinebreak x) (x # xs)"
  note unfold = splitlines_Cons [OF line_def rest_def]
  have s: "x # xs = line @ rest"
    unfolding line_def rest_def by (rule takeWhile_dropWhile_id [symmetric])
  have line: "sublist line (x # xs)"
    unfolding s by (rule sublist_append_rightI)
  show ?case
  proof (cases rest)
    case Nil
    with unfold "2.prems" line show ?thesis by simp
  next
    case (Cons b r)
    show ?thesis
    proof (cases r)
      case Nil
      with Cons unfold "2.prems" line show ?thesis by simp
    next
      case r: (Cons d r')
      have a: "sublist (d # r') (x # xs)"
        unfolding s Cons r by (metis append.assoc append_Cons append_Nil sublist_append_leftI)
      have b: "sublist r' (x # xs)"
        by (rule sublist_order.order.trans [OF _ a]) (simp add: sublist_Cons_right)
      show ?thesis
      proof (cases "b = CR \<and> d = LF")
        case True
        with unfold Cons r "2.prems" line "2.IH"(1) [OF refl Cons [unfolded rest_def] r True] b
        show ?thesis by (auto intro: sublist_order.order.trans)
      next
        case False
        with unfold Cons r "2.prems" line "2.IH"(2) [OF refl Cons [unfolded rest_def] r False] a
        show ?thesis by (auto intro: sublist_order.order.trans)
      qed
    qed
  qed
qed

lemma strip_sublist: "sublist (strip l) l"
proof -
  have "prefix (rev (dropWhile isspace (rev (dropWhile isspace l)))) (dropWhile isspace l)"
    by (metis suffix_dropWhile suffix_to_prefix rev_rev_ident)
  moreover have "suffix (dropWhile isspace l) l"
    by (rule suffix_dropWhile)
  ultimately show ?thesis
    unfolding strip_def
    by (meson prefix_imp_sublist sublist_order.order.trans suffix_imp_sublist)
qed

lemma single_dollar_line_feed:
  "single_dollar b (l @ LF # r) \<longleftrightarrow> single_dollar b l \<and> single_dollar False r"
  by (induction l arbitrary: b) auto

lemma single_dollar_join:
  "(\<And>l. l \<in> set ls \<Longrightarrow> single_dollar False l) \<Longrightarrow> single_dollar False (join LF ls)"
  by (induction LF ls rule: join.induct) (auto simp: single_dollar_line_feed)

lemma single_dollar_strip_lines:
  assumes "single_dollar False x"
  shows "single_dollar False (strip_lines x)"
  unfolding strip_lines_def
proof (rule single_dollar_join)
  fix l assume "l \<in> set (map strip (splitlines x))"
  then obtain l' where "l' \<in> set (splitlines x)" and l: "l = strip l'" by auto
  then have "sublist l' x" by (simp add: splitlines_sublist)
  with strip_sublist [of l'] have "sublist l x"
    unfolding l by (rule sublist_order.order.trans)
  from single_dollar_sublist [OF this assms] show "single_dollar False l" .
qed

lemma set_join: "set (join sep ls) \<subseteq> insert sep (\<Union> (set ` set ls))"
  by (induction sep ls rule: join.induct) auto

lemma set_strip_lines: "set (strip_lines x) \<subseteq> insert LF (set x)"
proof -
  have "set l \<subseteq> set x" if "l \<in> set (map strip (splitlines x))" for l
  proof -
    from that obtain l' where "l' \<in> set (splitlines x)" and l: "l = strip l'" by auto
    then have "sublist l' x" by (simp add: splitlines_sublist)
    with strip_sublist [of l'] have "sublist l x"
      unfolding l by (rule sublist_order.order.trans)
    then show ?thesis by (rule set_mono_sublist)
  qed
  with set_join [of LF "map strip (splitlines x)"] show ?thesis
    unfolding strip_lines_def by blast
qed

lemma no_percent_after_comment_removal: "ord CHR ''%'' \<notin> set (re_sub match_comment s)"
proof (induction "match_comment" s rule: re_sub.induct)
  case 1
  show ?case by simp
next
  case (2 c cs)
  then show ?case
    by (cases "match_comment (c # cs)") (auto simp: match_comment_def split: if_splits)
qed

lemma no_brace_after_brace_removal:
  "ord CHR ''{'' \<notin> set (re_sub match_brace s) \<and> ord CHR ''}'' \<notin> set (re_sub match_brace s)"
proof (induction "match_brace" s rule: re_sub.induct)
  case 1
  show ?case by simp
next
  case (2 c cs)
  then show ?case
    by (cases "match_brace (c # cs)") (auto simp: match_brace_def split: if_splits)
qed

lemma match_span_first: "c \<noteq> b0 \<Longrightarrow> match_span (b0 # b) e (c # cs) = None"
  by (simp add: match_span_def)

lemma remove_environment_unchanged:
  assumes "backslash \<notin> set t"
  shows "remove_environment t env = t"
proof -
  have "re_sub (match_environment e) t = t" for e
    using assms by (intro re_sub_unchanged) (auto simp: match_environment_def match_span_def)
  then show ?thesis by (simp add: remove_environment_def)
qed

lemma foldl_remove_environment_unchanged:
  "backslash \<notin> set t \<Longrightarrow> foldl remove_environment t envs = t"
  by (induction envs) (auto simp: remove_environment_unchanged)

lemma clean_latex_fixed:
  assumes "backslash \<notin> set t" and "ord CHR ''%'' \<notin> set t"
    and "ord CHR ''{'' \<notin> set t" and "ord CHR ''}'' \<notin> set t"
    and "single_dollar False t" and "strip_lines t = t"
  shows "clean_latex t = t"
proof -
  have u1: "re_sub match_comment t = t"
    using assms(2) by (intro re_sub_unchanged) (auto simp: match_comment_def)
  have u2: "foldl remove_environment t environments_to_remove = t"
    using assms(1) by (rule foldl_remove_environment_unchanged)
  have u3: "re_sub match_display_dollars t = t"
    using assms(5) by (rule display_dollars_unchanged)
  have u4: "re_sub match_display_brackets t = t"
    using assms(1) by (intro re_sub_unchanged) (auto simp: match_display_brackets_def match_span_def)
  have u5: "re_sub match_inline_math t = t"
    using assms(5) by (rule inline_math_unchanged)
  have u6: "re_sub match_command_args t = t"
    using assms(1) by (intro re_sub_unchanged) (auto simp: match_command_args_def)
  have u7: "re_sub match_command t = t"
    using assms(1) by (intro re_sub_unchanged) (auto simp: match_command_def)
  have u8: "re_sub match_brace t = t"
    using assms(3,4) by (intro re_sub_unchanged) (auto simp: match_brace_def)
  show ?thesis
    by (simp only: clean_latex_def Let_def u1 u2 u3 u4 u5 u6 u7 u8 assms(6))
qed

text \<open>
  Claim C7, as amended. When the cleaned text holds no backslash and does not end with a
  line feed, cleaning it again leaves it unchanged.
\<close>

theorem cleaning_twice:
  assumes "backslash \<notin> set (clean_latex s)" and "\<not> suffix [LF] (clean_latex s)"
  shows "clean_latex (clean_latex s) = clean_latex s"
proof -
  define x1 where "x1 = re_sub match_comment s"
  define x2 where "x2 = foldl remove_environment x1 environments_to_remove"
  define x3 where "x3 = re_sub match_display_dollars x2"
  define x4 where "x4 = re_sub match_display_brackets x3"
  define x5 where "x5 = re_sub match_inline_math x4"
  define x6 where "x6 = re_sub match_command_args x5"
  define x7 where "x7 = re_sub match_command x6"
  define x8 where "x8 = re_sub match_brace x7"
  define t where "t = clean_latex s"
  have t: "t = strip_lines x8"
    by (simp add: t_def clean_latex_def Let_def x1_def x2_def x3_def x4_def x5_def x6_def
      x7_def x8_def)
  have "subseq x8 x7" unfolding x8_def by (rule re_sub_subseq)
  also have "subseq x7 x6" unfolding x7_def by (rule re_sub_subseq)
  also have "subseq x6 x5" unfolding x6_def by (rule re_sub_subseq)
  also have "subseq x5 x4" unfolding x5_def by (rule re_sub_subseq)
  also have "subseq x4 x3" unfolding x4_def by (rule re_sub_subseq)
  also have "subseq x3 x2" unfolding x3_def by (rule re_sub_subseq)
  also have "subseq x2 x1" unfolding x2_def by (rule foldl_remove_environment_subseq)
  finally have "set x8 \<subseteq> set x1" by (rule subseq_set)
  moreover have "ord CHR ''%'' \<notin> set x1"
    unfolding x1_def by (rule no_percent_after_comment_removal)
  ultimately have "ord CHR ''%'' \<notin> set x8" by blast
  with set_strip_lines [of x8] have percent: "ord CHR ''%'' \<notin> set t"
    unfolding t by auto
  from no_brace_after_brace_removal [of x7] set_strip_lines [of x8]
  have braces: "ord CHR ''{'' \<notin> set t" "ord CHR ''}'' \<notin> set t"
    unfolding t x8_def by auto
  have "single_dollar False x5"
    unfolding x5_def using single_dollar_inline_math by blast
  then have "single_dollar False x6"
    unfolding x6_def by (rule single_dollar_re_sub) (rule match_command_args_free)
  then have "single_dollar False x7"
    unfolding x7_def by (rule single_dollar_re_sub) (rule match_command_free)
  then have "single_dollar False x8"
    unfolding x8_def by (rule single_dollar_re_sub) (rule match_brace_free)
  then have dollars: "single_dollar False t"
    unfolding t by (rule single_dollar_strip_lines)
  from assms(2) have "strip_lines t = t"
    unfolding t_def [symmetric] t by (rule strip_lines_fixed)
  with assms(1) percent braces dollars have "clean_latex t = t"
    unfolding t_def [symmetric] by (intro clean_latex_fixed)
  then show ?thesis by (simp only: t_def)
qed

theorem cleaning_twice_witness:
  "clean_latex (backslash # py ''textbf{Hello} $x$ world % note'') = py ''world''
   \<and> clean_latex (clean_latex (backslash # py ''textbf{Hello} $x$ world % note'')) = py ''world''"
proof -
  let ?s = "backslash # py ''textbf{Hello} $x$ world % note''"
  have c: "clean_latex ?s = py ''world''" by (simp add: eval_defs)
  have a: "backslash \<notin> set (clean_latex ?s)" unfolding c by simp
  have b: "\<not> suffix [LF] (clean_latex ?s)" unfolding c by (simp add: suffix_Cons)
  from cleaning_twice [OF a b] c show ?thesis by simp
qed

text \<open>
  Claim C7 as stated fails. Cleaning \<^verbatim>\<open>\{a}\<close> removes the braces and leaves \<^verbatim>\<open>\a\<close>, a
  command that the second cleaning removes.
\<close>

theorem cleaning_twice_differs:
  "clean_latex (backslash # py ''{a}'') = backslash # py ''a''
   \<and> clean_latex (clean_latex (backslash # py ''{a}'')) = []
   \<and> clean_latex (clean_latex (backslash # py ''{a}'')) \<noteq> clean_latex (backslash # py ''{a}'')"
  by (simp add: eval_defs)

text \<open>
  The last step alone is not idempotent either: a line break at the end of the text is
  dropped by \<^verbatim>\<open>splitlines\<close>, one at each cleaning.
\<close>

lemma cleaning_twice_blank_lines:
  "clean_latex [LF, LF] = [LF] \<and> clean_latex [LF] = []"
  by (simp add: eval_defs)

end
